theory Spec2Isabelle
  imports Main
begin

section \<open>Go strings\<close>

text \<open>
  A Go string is a sequence of bytes that the program reads as UTF-8: \<^verbatim>\<open>for _, c := range s\<close>
  and \<^verbatim>\<open>[]rune(s)\<close> walk over its code points. The strings of this program come from
  \<^verbatim>\<open>golang.org/x/net/html\<close>, which takes its input to be UTF-8, so a string is modelled as
  the list of its code points (runes). On well-formed UTF-8 the byte-level operations the
  program uses (\<^verbatim>\<open>==\<close>, \<^verbatim>\<open>+\<close>, \<^verbatim>\<open>strings.Split\<close>, \<^verbatim>\<open>strings.Trim\<close> and
  \<^verbatim>\<open>strings.ReplaceAll\<close> with one-character ASCII arguments) act on the code points in the
  same way. Bytes that are not UTF-8, which Go decodes to U+FFFD, are outside the model.
\<close>

type_synonym rune = nat
type_synonym gostring = "rune list"

definition str :: "string \<Rightarrow> gostring" where
  "str s = map of_char s"

abbreviation space :: rune where "space \<equiv> 32"
abbreviation newline :: rune where "newline \<equiv> 10"
abbreviation slash :: rune where "slash \<equiv> 47"

text \<open>\<^verbatim>\<open>strings.ReplaceAll(s, old, new)\<close> where \<open>old\<close> is one character.\<close>

definition strings_ReplaceAll :: "gostring \<Rightarrow> rune \<Rightarrow> gostring \<Rightarrow> gostring" where
  "strings_ReplaceAll s old new = concat (map (\<lambda>c. if c = old then new else [c]) s)"

text \<open>
  \<^verbatim>\<open>strings.Split(s, sep)\<close> where \<open>sep\<close> is one character: the pieces between the
  separators, \<open>n + 1\<close> of them for \<open>n\<close> separators, so never an empty list.
\<close>

fun strings_Split :: "gostring \<Rightarrow> rune \<Rightarrow> gostring list" where
  "strings_Split [] sep = [[]]"
| "strings_Split (c # cs) sep =
     (if c = sep then [] # strings_Split cs sep
      else (case strings_Split cs sep of
              [] \<Rightarrow> [[c]]
            | x # xs \<Rightarrow> (c # x) # xs))"

text \<open>\<^verbatim>\<open>strings.Trim(s, cutset)\<close>: the leading and trailing characters of the cutset go.\<close>

definition strings_Trim :: "gostring \<Rightarrow> gostring \<Rightarrow> gostring" where
  "strings_Trim s cutset =
     rev (dropWhile (\<lambda>c. c \<in> set cutset) (rev (dropWhile (\<lambda>c. c \<in> set cutset) s)))"

fun strings_Join :: "gostring list \<Rightarrow> gostring \<Rightarrow> gostring" where
  "strings_Join [] sep = []"
| "strings_Join [x] sep = x"
| "strings_Join (x # y # ys) sep = x @ sep @ strings_Join (y # ys) sep"

text \<open>
  \<^verbatim>\<open>path.Base\<close>: the empty path gives \<^verbatim>\<open>.\<close>; trailing slashes are stripped; what
  follows the last slash is kept; a path of slashes only gives \<^verbatim>\<open>/\<close>.
\<close>

definition path_Base :: "gostring \<Rightarrow> gostring" where
  "path_Base p =
     (if p = [] then str ''.''
      else let p1 = rev (dropWhile (\<lambda>c. c = slash) (rev p));
               p2 = rev (takeWhile (\<lambda>c. c \<noteq> slash) (rev p1))
           in if p2 = [] then str ''/'' else p2)"

text \<open>\<^verbatim>\<open>fmt.Fprint\<close> and \<^verbatim>\<open>fmt.Fprintln\<close> of one string operand: what reaches the writer.\<close>

definition fmt_Sprint :: "gostring \<Rightarrow> gostring" where
  "fmt_Sprint s = s"

definition fmt_Sprintln :: "gostring \<Rightarrow> gostring" where
  "fmt_Sprintln s = s @ [newline]"

section \<open>Errors\<close>

text \<open>
  The four sentinel errors of the program, an error handed up from a library
  (\<^verbatim>\<open>net/url\<close>, \<^verbatim>\<open>net/http\<close>, the HTML reader) with its message, and a panic.
\<close>

datatype error =
    ErrInvalidURL
  | ErrNoChaptersFound
  | ErrParsingPage
  | ErrBookNotFound
  | LibError gostring
  | Panic gostring

section \<open>HTML nodes\<close>

datatype NodeType =
  ErrorNode | TextNode | DocumentNode | ElementNode | CommentNode | DoctypeNode | RawNode

text \<open>
  \<^verbatim>\<open>atom.Atom\<close> is an integer code of a known tag name. The atoms the program names have a
  constructor each, as have those the examples below use; \<open>atom_Other\<close> carries the code of
  any other one (0 for a name that is not in the table).
\<close>

datatype Atom =
    atom_A | atom_Br | atom_Div
  | atom_H1 | atom_H2 | atom_H3 | atom_H4 | atom_H5 | atom_H6
  | atom_I | atom_Img | atom_P | atom_Span | atom_Tt
  | atom_Html | atom_Head | atom_Body | atom_Hr | atom_Ul | atom_Ol | atom_Li
  | atom_Other nat

record Attribute =
  Namespace :: gostring
  Key :: gostring
  Val :: gostring

text \<open>
  \<^verbatim>\<open>html.Node\<close>: the links \<^verbatim>\<open>FirstChild\<close> and \<^verbatim>\<open>NextSibling\<close> are the list of child
  nodes; \<^verbatim>\<open>Parent\<close> is the path from the root, passed along where a selector reads it.
\<close>

datatype Node =
  Node (Type: NodeType) (DataAtom: Atom) (Data: gostring) (Attr: "Attribute list")
       (ChildNodes: "Node list")

section \<open>The goquery operations the program calls\<close>

text \<open>
  The selectors of the program, parsed: a tag name, \<^verbatim>\<open>[key]\<close>, \<^verbatim>\<open>[key="val"]\<close>, two
  selectors on one element, and the descendant combinator (a blank).
\<close>

datatype Selector =
    Tag gostring
  | AttrExists gostring
  | AttrEquals gostring gostring
  | Both Selector Selector
  | Descendant Selector Selector

text \<open>
  Whether a node matches, given its ancestors (the nearest first). A descendant selector
  \<open>a d\<close> matches a node that matches \<open>d\<close> and has an ancestor that matches \<open>a\<close>.
\<close>

fun Match :: "Selector \<Rightarrow> Node list \<Rightarrow> Node \<Rightarrow> bool"
  and MatchAncestor :: "Selector \<Rightarrow> Node list \<Rightarrow> bool" where
  "Match (Tag t) anc n = (Type n = ElementNode \<and> Data n = t)"
| "Match (AttrExists k) anc n = (Type n = ElementNode \<and> list_ex (\<lambda>a. Key a = k) (Attr n))"
| "Match (AttrEquals k v) anc n =
     (Type n = ElementNode \<and> list_ex (\<lambda>a. Key a = k \<and> Val a = v) (Attr n))"
| "Match (Both s1 s2) anc n = (Match s1 anc n \<and> Match s2 anc n)"
| "Match (Descendant a d) anc n = (Match d anc n \<and> MatchAncestor a anc)"
| "MatchAncestor a [] = False"
| "MatchAncestor a (p # ps) = (Match a ps p \<or> MatchAncestor a ps)"

text \<open>\<^verbatim>\<open>MatchAll\<close>: the matching nodes among a node and its descendants, in document order.\<close>

fun MatchAll :: "Selector \<Rightarrow> Node list \<Rightarrow> Node \<Rightarrow> Node list" where
  "MatchAll s anc (Node ty a d attrs cs) =
     (if Match s anc (Node ty a d attrs cs) then [Node ty a d attrs cs] else [])
     @ concat (map (MatchAll s (Node ty a d attrs cs # anc)) cs)"

text \<open>
  \<^verbatim>\<open>Find\<close> on the selection of one node: the matches among its descendants, searched
  from each child that is an element.
\<close>

definition gq_Find :: "Selector \<Rightarrow> Node list \<Rightarrow> Node \<Rightarrow> Node list" where
  "gq_Find s anc n =
     concat (map (\<lambda>c. if Type c = ElementNode then MatchAll s (n # anc) c else [])
                 (ChildNodes n))"

text \<open>\<^verbatim>\<open>Children\<close>: the child elements (no text, no comments) of each node of a selection.\<close>

definition gq_Children :: "Node list \<Rightarrow> Node list" where
  "gq_Children sel = concat (map (\<lambda>n. filter (\<lambda>c. Type c = ElementNode) (ChildNodes n)) sel)"

text \<open>
  \<^verbatim>\<open>Is\<close>: some node of the selection matches. The program calls it with selectors that
  have no combinator, which do not read the ancestors.
\<close>

definition gq_Is :: "Node list \<Rightarrow> Selector \<Rightarrow> bool" where
  "gq_Is sel s = list_ex (Match s []) sel"

text \<open>
  \<^verbatim>\<open>Text\<close>: the data of the text nodes among the nodes of a selection and their
  descendants, in document order. \<open>nodeText\<close> is the local function that \<^verbatim>\<open>Text\<close> runs on
  each node: it writes the data of a text node and then visits the children.
\<close>

fun nodeText :: "Node \<Rightarrow> gostring" where
  "nodeText (Node ty a d attrs cs) =
     (if ty = TextNode then d else []) @ concat (map nodeText cs)"

definition gq_Text :: "Node list \<Rightarrow> gostring" where
  "gq_Text sel = concat (map nodeText sel)"

text \<open>\<^verbatim>\<open>Attr\<close>: the value of the first attribute of that name on the first node.\<close>

definition gq_Attr :: "Node list \<Rightarrow> gostring \<Rightarrow> gostring option" where
  "gq_Attr sel attrName =
     (case sel of
        [] \<Rightarrow> None
      | n # _ \<Rightarrow> map_option Val (find (\<lambda>a. Key a = attrName) (Attr n)))"

section \<open>The URL normalizer: \<^verbatim>\<open>getBaseUrl\<close>\<close>

text \<open>
  The fields of \<^verbatim>\<open>url.URL\<close> that hold text; \<^verbatim>\<open>getBaseUrl\<close> reads \<open>Scheme\<close>, \<open>Host\<close>
  and \<open>Path\<close> only.
\<close>

record URL =
  Scheme :: gostring
  Opaque :: gostring
  Host :: gostring
  Path :: gostring
  RawPath :: gostring
  RawQuery :: gostring
  Fragment :: gostring

text \<open>
  \<^verbatim>\<open>url.Parse\<close> belongs to Go's library, not to the program: the model takes what it
  returned for \<^verbatim>\<open>rawurl\<close>, either the message of its error or the parsed URL.
\<close>

definition getBaseUrl :: "gostring + URL \<Rightarrow> error + gostring" where
  "getBaseUrl parsed =
     (case parsed of
        Inl msg \<Rightarrow> Inl (LibError msg)
      | Inr url \<Rightarrow>
          if \<not> (Scheme url = str ''http'' \<or> Scheme url = str ''https'') then Inl ErrInvalidURL
          else if \<not> (Host url = str ''projekt-gutenberg.org''
                      \<or> Host url = str ''www.projekt-gutenberg.org'') then Inl ErrInvalidURL
          else let spPath = strings_Split (strings_Trim (Path url) (str ''/'')) slash
               in if length spPath < 2 then Inl ErrInvalidURL
                  else let basePath = strings_Join (take 2 spPath) (str ''/'')
                       in Inr (Scheme url @ str ''://projekt-gutenberg.org/'' @ basePath))"

section \<open>The index parser: \<^verbatim>\<open>getChapters\<close>\<close>

definition sel_body_ul_li :: Selector where
  "sel_body_ul_li = Descendant (Descendant (Tag (str ''body'')) (Tag (str ''ul''))) (Tag (str ''li''))"

definition sel_a_href :: Selector where
  "sel_a_href = Both (Tag (str ''a'')) (AttrExists (str ''href''))"

text \<open>
  The body of \<^verbatim>\<open>Each\<close>, run over the list items in order; \<open>chapterUrls\<close> is the slice
  it appends to. A list item with no link panics.
\<close>

fun getChapters_Each :: "gostring \<Rightarrow> Node list \<Rightarrow> gostring list \<Rightarrow> error + gostring list" where
  "getChapters_Each baseUrl [] chapterUrls = Inr chapterUrls"
| "getChapters_Each baseUrl (li # lis) chapterUrls =
     (let s = gq_Find sel_a_href [] li
      in if length s = 0 then Inl (Panic (str ''missing link in chapter index''))
         else let relUrl = (case gq_Attr s (str ''href'') of None \<Rightarrow> [] | Some v \<Rightarrow> v)
              in getChapters_Each baseUrl lis (chapterUrls @ [baseUrl @ str ''/'' @ relUrl]))"

definition getChapters :: "gostring \<Rightarrow> Node \<Rightarrow> error + gostring list" where
  "getChapters baseUrl doc =
     (case getChapters_Each baseUrl (gq_Find sel_body_ul_li [] doc) [] of
        Inl e \<Rightarrow> Inl e
      | Inr chapterUrls \<Rightarrow>
          if length chapterUrls = 0 then Inl ErrNoChaptersFound else Inr chapterUrls)"

section \<open>The content extractor: \<^verbatim>\<open>parseAdditionalPage\<close>\<close>

record MetaInfo =
  Author :: gostring
  Title :: gostring
  Year :: gostring

text \<open>The extractor; \<open>W\<close> is what has been written to its writer so far.\<close>

record Extractor =
  BaseUrl :: gostring
  Meta :: MetaInfo
  ChapterUrls :: "gostring list"
  W :: gostring

subsection \<open>Conversion of a node to Markdown: \<^verbatim>\<open>process\<close>\<close>

text \<open>\<^verbatim>\<open>hasClass\<close>: only the first \<^verbatim>\<open>class\<close> attribute is read.\<close>

fun hasClass :: "Attribute list \<Rightarrow> gostring \<Rightarrow> bool" where
  "hasClass [] cls = False"
| "hasClass (v # vs) cls =
     (if Key v = str ''class''
      then list_ex (\<lambda>cl. cl = cls) (strings_Split (Val v) space)
      else hasClass vs cls)"

text \<open>
  The loop of the text-node case over the characters that are left, with the flag
  \<open>prevWasSpace\<close> and the string \<open>newRet\<close> built so far.
\<close>

fun textNode_loop :: "gostring \<Rightarrow> bool \<Rightarrow> gostring \<Rightarrow> gostring" where
  "textNode_loop [] prevWasSpace newRet = newRet"
| "textNode_loop (c # cs) prevWasSpace newRet =
     (if c = space
      then (if prevWasSpace then textNode_loop cs prevWasSpace newRet
            else textNode_loop cs True (newRet @ [c]))
      else textNode_loop cs False (newRet @ [c]))"

definition textNode :: "gostring \<Rightarrow> gostring" where
  "textNode d = textNode_loop (strings_ReplaceAll d newline []) False []"

text \<open>
  The switch on \<^verbatim>\<open>n.DataAtom\<close>; \<open>children\<close> is what \<^verbatim>\<open>processChildren()\<close> returns.
  An image and an unknown atom leave \<open>ret\<close> empty (the unknown one with a warning on
  the console, which is not part of the model).
\<close>

definition elementSwitch :: "Atom \<Rightarrow> Attribute list \<Rightarrow> gostring \<Rightarrow> gostring" where
  "elementSwitch a attrs children =
     (case a of
        atom_Br \<Rightarrow> str ''\<newline>\<newline>''
      | atom_H1 \<Rightarrow> str ''# '' @ children @ str ''\<newline>''
      | atom_H2 \<Rightarrow> str ''## '' @ children @ str ''\<newline>''
      | atom_H3 \<Rightarrow> str ''### '' @ children @ str ''\<newline>''
      | atom_H4 \<Rightarrow> str ''#### '' @ children @ str ''\<newline>''
      | atom_H5 \<Rightarrow> str ''##### '' @ children @ str ''\<newline>''
      | atom_H6 \<Rightarrow> str ''###### '' @ children @ str ''\<newline>''
      | atom_P \<Rightarrow>
          if hasClass attrs (str ''centerbig'')
          then str ''#### '' @ children @ str ''\<newline>\<newline>''
          else children @ str ''\<newline>\<newline>''
      | atom_Div \<Rightarrow> children
      | atom_Tt \<Rightarrow> [96] @ children @ [96]
      | atom_I \<Rightarrow> str ''_'' @ children @ str ''_''
      | atom_A \<Rightarrow> children
      | atom_Span \<Rightarrow> children
      | atom_Img \<Rightarrow> []
      | _ \<Rightarrow> [])"

text \<open>
  The loop of the spaced effect: \<open>i\<close> runs over the indices of \<open>runes\<close>, and a space
  follows every character but the last. \<open>nRunes - 1\<close> is computed on integers, as in Go.
\<close>

function spaced_loop :: "gostring \<Rightarrow> nat \<Rightarrow> gostring \<Rightarrow> gostring" where
  "spaced_loop runes i newRet =
     (if i < length runes
      then spaced_loop runes (i + 1)
             (if int i < int (length runes) - 1
              then (newRet @ [runes ! i]) @ [space]
              else newRet @ [runes ! i])
      else newRet)"
  by pat_completeness auto
termination
  by (relation "measure (\<lambda>(runes, i, newRet). length runes - i)") auto

declare spaced_loop.simps [simp del]

definition cssEffects :: "Attribute list \<Rightarrow> gostring \<Rightarrow> gostring" where
  "cssEffects attrs ret =
     (if hasClass attrs (str ''spaced'') then spaced_loop ret 0 [] else ret)"

text \<open>
  \<^verbatim>\<open>process\<close> and its \<^verbatim>\<open>processChildren\<close>. A node that is neither text nor an element
  gives the empty string (with a warning on the console).
\<close>

fun process :: "Node \<Rightarrow> gostring"
  and processChildren :: "Node list \<Rightarrow> gostring" where
  "process (Node ty a d attrs cs) =
     (case ty of
        TextNode \<Rightarrow> textNode d
      | ElementNode \<Rightarrow> cssEffects attrs (elementSwitch a attrs (processChildren cs))
      | _ \<Rightarrow> [])"
| "processChildren [] = []"
| "processChildren (i # rest) = process i @ processChildren rest"

subsection \<open>The content region\<close>

definition sel_hr_marker :: Selector where
  "sel_hr_marker =
     Both (Both (Tag (str ''hr'')) (AttrEquals (str ''size'') (str ''1'')))
          (AttrEquals (str ''color'') (str ''#808080''))"

text \<open>The two navigation labels; U+00A0 is 160 and U+00FC is 252.\<close>

definition label_zurueck :: gostring where
  "label_zurueck = str ''<<'' @ [160] @ str ''zur'' @ [252] @ str ''ck''"

definition label_weiter :: gostring where
  "label_weiter = str ''weiter'' @ [160] @ str ''>>''"

text \<open>The variables the filter function closes over.\<close>

record closure =
  passedHrs :: nat
  err :: "error option"

text \<open>
  The function given to \<^verbatim>\<open>FilterFunction\<close>: whether the child \<open>s\<close> is kept, and the
  closure after the call.
\<close>

definition filterFunc :: "Node \<Rightarrow> closure \<Rightarrow> bool \<times> closure" where
  "filterFunc s st =
     (if gq_Is [s] sel_hr_marker then (False, st\<lparr>passedHrs := passedHrs st + 1\<rparr>)
      else if gq_Is [s] (Tag (str ''a''))
              \<and> (gq_Text [s] = label_zurueck \<or> gq_Text [s] = label_weiter)
      then (False, st)
      else if passedHrs st = 0 then (False, st)
      else if passedHrs st = 1 then (True, st)
      else if passedHrs st = 2 then (False, st)
      else (False, st\<lparr>err := Some ErrParsingPage\<rparr>))"

fun FilterFunction :: "Node list \<Rightarrow> closure \<Rightarrow> Node list \<times> closure" where
  "FilterFunction [] st = ([], st)"
| "FilterFunction (s # rest) st =
     (case filterFunc s st of
        (keep, st1) \<Rightarrow>
          (case FilterFunction rest st1 of
             (kept, st2) \<Rightarrow> ((if keep then s # kept else kept), st2)))"

text \<open>The direct child elements of the body: what the filter runs over.\<close>

definition bodyChildren :: "Node \<Rightarrow> Node list" where
  "bodyChildren doc = gq_Children (gq_Find (Tag (str ''body'')) [] doc)"

definition parseAdditionalPage :: "Extractor \<Rightarrow> Node \<Rightarrow> error option \<times> Extractor" where
  "parseAdditionalPage e doc =
     (case FilterFunction (bodyChildren doc) \<lparr>passedHrs = 0, err = None\<rparr> of
        (content, st) \<Rightarrow>
          (case err st of
             Some er \<Rightarrow> (Some er, e)
           | None \<Rightarrow> (None, e\<lparr>W := foldl (\<lambda>w n. w @ fmt_Sprint (process n)) (W e) content\<rparr>)))"

section \<open>The document assembler: \<^verbatim>\<open>FetchAndProcessChapter\<close>\<close>

text \<open>
  \<open>fetched\<close> is what \<^verbatim>\<open>http.Get\<close> and \<^verbatim>\<open>NewDocumentFromReader\<close> gave for the chapter
  URL: the message of an error, or the parsed page.
\<close>

definition FetchAndProcessChapter ::
  "Extractor \<Rightarrow> gostring \<Rightarrow> gostring + Node \<Rightarrow> error option \<times> Extractor" where
  "FetchAndProcessChapter e chapterUrl fetched =
     (case fetched of
        Inl msg \<Rightarrow> (Some (LibError msg), e)
      | Inr doc \<Rightarrow>
          (case parseAdditionalPage e doc of
             (Some er, e1) \<Rightarrow> (Some er, e1)
           | (None, e1) \<Rightarrow>
               if path_Base chapterUrl = str ''titlepage.html''
               then (None, e1\<lparr>W := W e1 @ fmt_Sprintln (str ''\<newline>----------------\<newline>'')\<rparr>)
               else (None, e1)))"

section \<open>Notions the properties are stated with\<close>

subsection \<open>Text\<close>

text \<open>
  Every maximal run of spaces replaced by one space: a space is kept and the spaces that
  follow it are dropped.
\<close>

function collapseRuns :: "gostring \<Rightarrow> gostring" where
  "collapseRuns [] = []"
| "collapseRuns (c # cs) =
     (if c = space then space # collapseRuns (dropWhile (\<lambda>x. x = space) cs)
      else c # collapseRuns cs)"
  by pat_completeness auto
termination
  by (relation "measure length") (auto simp: less_Suc_eq_le length_dropWhile_le)

text \<open>Two spaces stand next to each other somewhere in the string.\<close>

fun adjacentSpaces :: "gostring \<Rightarrow> bool" where
  "adjacentSpaces [] = False"
| "adjacentSpaces [x] = False"
| "adjacentSpaces (x # y # ys) = ((x = space \<and> y = space) \<or> adjacentSpaces (y # ys))"

text \<open>One separator between every two neighbours, none before the first or after the last.\<close>

fun insertBetween :: "rune \<Rightarrow> gostring \<Rightarrow> gostring" where
  "insertBetween sep [] = []"
| "insertBetween sep [x] = [x]"
| "insertBetween sep (x # y # ys) = x # sep # insertBetween sep (y # ys)"

subsection \<open>Selectors\<close>

text \<open>A selector without the descendant combinator.\<close>

fun combinatorFree :: "Selector \<Rightarrow> bool" where
  "combinatorFree (Tag t) = True"
| "combinatorFree (AttrExists k) = True"
| "combinatorFree (AttrEquals k v) = True"
| "combinatorFree (Both s1 s2) = (combinatorFree s1 \<and> combinatorFree s2)"
| "combinatorFree (Descendant a d) = False"

subsection \<open>Children of the body\<close>

text \<open>The two tests of the filter function, by name.\<close>

definition isMarker :: "Node \<Rightarrow> bool" where
  "isMarker n = gq_Is [n] sel_hr_marker"

definition isNavLink :: "Node \<Rightarrow> bool" where
  "isNavLink n =
     (gq_Is [n] (Tag (str ''a'')) \<and> (gq_Text [n] = label_zurueck \<or> gq_Text [n] = label_weiter))"

subsection \<open>URLs and list items\<close>

text \<open>The path segments \<^verbatim>\<open>spPath\<close> that \<^verbatim>\<open>getBaseUrl\<close> computes.\<close>

definition spPath :: "URL \<Rightarrow> gostring list" where
  "spPath u = strings_Split (strings_Trim (Path u) (str ''/'')) slash"

text \<open>The segments of a split path without the empty ones at its two ends.\<close>

definition trimEmpty :: "gostring list \<Rightarrow> gostring list" where
  "trimEmpty segs = rev (dropWhile (\<lambda>x. x = []) (rev (dropWhile (\<lambda>x. x = []) segs)))"

text \<open>
  The \<^verbatim>\<open>href\<close> that \<^verbatim>\<open>getChapters\<close> reads in a list item: of the first link found in
  it, the value of the first attribute with that key.
\<close>

definition hrefOf :: "Node \<Rightarrow> gostring" where
  "hrefOf li =
     (case gq_Attr (gq_Find sel_a_href [] li) (str ''href'') of None \<Rightarrow> [] | Some v \<Rightarrow> v)"

subsection \<open>Sample documents\<close>

text \<open>
  An element with its tag name, atom, attributes and children; a text node; the marker
  \<^verbatim>\<open><hr size="1" color="#808080">\<close>; a page as the HTML reader builds it, with the given
  children of the body; an extractor that has written nothing; a parsed URL.
\<close>

definition elem :: "string \<Rightarrow> Atom \<Rightarrow> (string \<times> string) list \<Rightarrow> Node list \<Rightarrow> Node" where
  "elem t a kvs cs =
     Node ElementNode a (str t)
       (map (\<lambda>(k, v). \<lparr>Namespace = [], Key = str k, Val = str v\<rparr>) kvs) cs"

definition tnode :: "gostring \<Rightarrow> Node" where
  "tnode d = Node TextNode (atom_Other 0) d [] []"

definition hr_marker :: Node where
  "hr_marker = elem ''hr'' atom_Hr [(''size'', ''1''), (''color'', ''#808080'')] []"

definition page :: "Node list \<Rightarrow> Node" where
  "page cs =
     Node DocumentNode (atom_Other 0) [] []
       [elem ''html'' atom_Html [] [elem ''head'' atom_Head [] [], elem ''body'' atom_Body [] cs]]"

definition extractor0 :: Extractor where
  "extractor0 =
     \<lparr>BaseUrl = [], Meta = \<lparr>Author = [], Title = [], Year = []\<rparr>, ChapterUrls = [], W = []\<rparr>"

definition url_of :: "string \<Rightarrow> string \<Rightarrow> string \<Rightarrow> string \<Rightarrow> string \<Rightarrow> URL" where
  "url_of scheme host path query fragment =
     \<lparr>Scheme = str scheme, Opaque = [], Host = str host, Path = str path, RawPath = [],
      RawQuery = str query, Fragment = str fragment\<rparr>"

section \<open>Selectors without a combinator\<close>

text \<open>
  A selector without a combinator does not read the ancestors of a node, and the
  selectors that the program gives to \<^verbatim>\<open>Is\<close> and to the \<^verbatim>\<open>Find\<close> on a list item are of
  this kind: the empty list of ancestors that the model passes there stands for any.
\<close>

lemma Match_combinatorFree:
  "combinatorFree s \<Longrightarrow> Match s anc n = Match s anc' n"
  by (induction s) auto

lemma MatchAll_combinatorFree:
  "combinatorFree s \<Longrightarrow> MatchAll s anc n = MatchAll s anc' n"
proof (induction s anc n arbitrary: anc' rule: MatchAll.induct)
  case (1 s anc ty a d attrs cs)
  have "map (MatchAll s (Node ty a d attrs cs # anc)) cs
          = map (MatchAll s (Node ty a d attrs cs # anc')) cs"
  proof (rule map_cong)
    show "cs = cs" by simp
  next
    fix x assume "x \<in> set cs"
    then show "MatchAll s (Node ty a d attrs cs # anc) x = MatchAll s (Node ty a d attrs cs # anc') x"
      using 1(1) [of x "Node ty a d attrs cs # anc'"] 1(2) by simp
  qed
  moreover have "Match s anc (Node ty a d attrs cs) = Match s anc' (Node ty a d attrs cs)"
    using 1(2) by (rule Match_combinatorFree)
  ultimately show ?case by (simp del: map_eq_conv)
qed

lemma gq_Find_combinatorFree:
  "combinatorFree s \<Longrightarrow> gq_Find s anc n = gq_Find s [] n"
proof -
  assume c: "combinatorFree s"
  have "(\<lambda>c. if Type c = ElementNode then MatchAll s (n # anc) c else [])
          = (\<lambda>c. if Type c = ElementNode then MatchAll s [n] c else [])"
    by (rule ext) (simp add: MatchAll_combinatorFree [OF c, of "n # anc" _ "[n]"])
  then show ?thesis by (simp add: gq_Find_def)
qed

lemma program_selectors_combinatorFree:
  "combinatorFree sel_a_href" "combinatorFree sel_hr_marker" "combinatorFree (Tag t)"
  by (simp_all add: sel_a_href_def sel_hr_marker_def)

section \<open>Properties of the text-node conversion\<close>

lemma textNode_loop_collapseRuns:
  "textNode_loop cs prev acc =
     acc @ collapseRuns (if prev then dropWhile (\<lambda>x. x = space) cs else cs)"
  by (induction cs arbitrary: prev acc) auto

lemma strings_ReplaceAll_delete:
  "strings_ReplaceAll s old [] = filter (\<lambda>c. c \<noteq> old) s"
  by (induction s) (auto simp: strings_ReplaceAll_def)

lemma textNode_eq: "textNode d = collapseRuns (filter (\<lambda>c. c \<noteq> newline) d)"
  by (simp add: textNode_def textNode_loop_collapseRuns strings_ReplaceAll_delete)

lemma collapseRuns_Nil_iff: "collapseRuns xs = [] \<longleftrightarrow> xs = []"
  by (cases xs) auto

lemma hd_collapseRuns: "hd (collapseRuns xs) = hd xs"
  by (cases xs) auto

lemma set_collapseRuns: "set (collapseRuns xs) \<subseteq> set xs"
proof (induction xs rule: collapseRuns.induct)
  case 1
  show ?case by simp
next
  case (2 c cs)
  have "set (dropWhile (\<lambda>x. x = space) cs) \<subseteq> set cs"
    by (simp add: set_dropWhileD subsetI)
  with 2 show ?case by auto
qed

lemma no_adjacentSpaces_collapseRuns: "\<not> adjacentSpaces (collapseRuns xs)"
proof (induction xs rule: collapseRuns.induct)
  case 1
  show ?case by simp
next
  case (2 c cs)
  show ?case
  proof (cases "c = space")
    case True
    let ?r = "dropWhile (\<lambda>x. x = space) cs"
    have ih: "\<not> adjacentSpaces (collapseRuns ?r)" using 2(1) True by simp
    show ?thesis
    proof (cases "collapseRuns ?r")
      case Nil
      with True show ?thesis by simp
    next
      case (Cons y ys)
      then have "collapseRuns ?r \<noteq> []" by simp
      then have ne: "?r \<noteq> []" using collapseRuns_Nil_iff by blast
      then have "hd ?r \<noteq> space" using hd_dropWhile [of "\<lambda>x. x = space" cs] by simp
      then have "y \<noteq> space" using Cons hd_collapseRuns [of ?r] by simp
      with ih Cons True show ?thesis by simp
    qed
  next
    case False
    then have ih: "\<not> adjacentSpaces (collapseRuns cs)" using 2(2) by simp
    with False show ?thesis by (cases "collapseRuns cs") auto
  qed
qed

lemma collapseRuns_id: "\<not> adjacentSpaces xs \<Longrightarrow> collapseRuns xs = xs"
proof (induction xs rule: adjacentSpaces.induct)
  case 1
  show ?case by simp
next
  case (2 x)
  show ?case by simp
next
  case (3 x y ys)
  then show ?case by auto
qed

lemma last_collapseRuns: "last (collapseRuns xs) = last xs"
proof (induction xs rule: collapseRuns.induct)
  case 1
  show ?case by simp
next
  case (2 c cs)
  show ?case
  proof (cases "c = space")
    case True
    let ?r = "dropWhile (\<lambda>x. x = space) cs"
    show ?thesis
    proof (cases "?r = []")
      case True
      then have "\<forall>x\<in>set cs. x = space" by (simp add: dropWhile_eq_Nil_conv)
      then have l: "last (c # cs) = space" using \<open>c = space\<close> by (cases cs rule: rev_cases) auto
      have "collapseRuns (c # cs) = space # collapseRuns ?r" using \<open>c = space\<close> by simp
      also have "\<dots> = [space]" by (simp only: True collapseRuns.simps)
      finally show ?thesis using l by simp
    next
      case False
      then have "cs \<noteq> []" by auto
      have "last ?r = last cs" using False
        by (metis append_Nil2 last_appendR takeWhile_dropWhile_id)
      moreover have "last (collapseRuns ?r) = last ?r" using 2(1) True by simp
      ultimately show ?thesis using True False \<open>cs \<noteq> []\<close> by (simp add: collapseRuns_Nil_iff)
    qed
  next
    case False
    with 2(2) show ?thesis by (simp add: collapseRuns_Nil_iff)
  qed
qed

text \<open>
  Claim C2. The conversion of a text node removes every newline and then replaces every
  run of two or more spaces by one space: the result is \<open>collapseRuns\<close> of the text
  without its newlines, it holds no newline and no two neighbouring spaces. A text with
  no newline and no two neighbouring spaces comes back unchanged. The text
  \<^verbatim>\<open>a  b   c\<close> gives \<^verbatim>\<open>a b c\<close>. Nothing is trimmed: the first and the last
  character of the result are those of the text without its newlines.
\<close>

theorem textNode_strips_and_collapses:
  "process (Node TextNode a d attrs cs) = collapseRuns (filter (\<lambda>c. c \<noteq> newline) d)
   \<and> newline \<notin> set (process (Node TextNode a d attrs cs))
   \<and> \<not> adjacentSpaces (process (Node TextNode a d attrs cs))
   \<and> (newline \<notin> set d \<and> \<not> adjacentSpaces d \<longrightarrow> process (Node TextNode a d attrs cs) = d)
   \<and> process (Node TextNode a (str ''a  b   c'') attrs cs) = str ''a b c''
   \<and> (filter (\<lambda>c. c \<noteq> newline) d \<noteq> [] \<longrightarrow>
        hd (process (Node TextNode a d attrs cs)) = hd (filter (\<lambda>c. c \<noteq> newline) d)
        \<and> last (process (Node TextNode a d attrs cs)) = last (filter (\<lambda>c. c \<noteq> newline) d))"
proof -
  let ?s = "filter (\<lambda>c. c \<noteq> newline) d"
  have p: "process (Node TextNode a d attrs cs) = collapseRuns ?s"
    by (simp add: textNode_eq)
  have n: "newline \<notin> set (collapseRuns ?s)"
    using set_collapseRuns [of ?s] by auto
  have i: "newline \<notin> set d \<and> \<not> adjacentSpaces d \<longrightarrow> collapseRuns ?s = d"
  proof
    assume h: "newline \<notin> set d \<and> \<not> adjacentSpaces d"
    then have "?s = d" by (auto simp: filter_id_conv)
    with h show "collapseRuns ?s = d" by (simp add: collapseRuns_id)
  qed
  have e: "process (Node TextNode a (str ''a  b   c'') attrs cs) = str ''a b c''"
    by (simp add: textNode_eq str_def)
  show ?thesis
    unfolding p using n i e p no_adjacentSpaces_collapseRuns [of ?s]
      hd_collapseRuns [of ?s] last_collapseRuns [of ?s]
    by simp
qed

text \<open>
  The property at two texts that begin and end with a space: one that is left as it is,
  and one with a run of spaces and a newline.
\<close>

theorem textNode_strips_and_collapses_witness:
  "process (tnode (str '' a b '')) = str '' a b ''
   \<and> process (tnode (str '' x  y\<newline> z '')) = str '' x y z ''
   \<and> hd (process (tnode (str '' x  y\<newline> z ''))) = space
   \<and> last (process (tnode (str '' x  y\<newline> z ''))) = space"
  using textNode_strips_and_collapses [of "atom_Other 0" "str '' a b ''" "[]" "[]"]
    textNode_strips_and_collapses [of "atom_Other 0" "str '' x  y\<newline> z ''" "[]" "[]"]
  by (simp add: tnode_def str_def)

section \<open>Properties of the spaced effect\<close>

lemma spaced_loop_insertBetween:
  "i \<le> length runes \<Longrightarrow> spaced_loop runes i acc = acc @ insertBetween space (drop i runes)"
proof (induction runes i acc rule: spaced_loop.induct)
  case (1 runes i newRet)
  show ?case
  proof (cases "i < length runes")
    case False
    with 1(2) show ?thesis by (simp add: spaced_loop.simps)
  next
    case True
    then have d: "drop i runes = runes ! i # drop (Suc i) runes"
      by (simp add: Cons_nth_drop_Suc)
    show ?thesis
    proof (cases "Suc i < length runes")
      case True
      then obtain y ys where "drop (Suc i) runes = y # ys"
        by (cases "drop (Suc i) runes") auto
      with 1(1) True d show ?thesis
        by (subst spaced_loop.simps) auto
    next
      case False
      with \<open>i < length runes\<close> have "drop (Suc i) runes = []" by simp
      with 1(1) False \<open>i < length runes\<close> d show ?thesis
        by (subst spaced_loop.simps) auto
    qed
  qed
qed

lemma length_insertBetween: "length (insertBetween s xs) = 2 * length xs - 1"
  by (induction s xs rule: insertBetween.induct) auto

lemma nth_even_insertBetween: "i < length xs \<Longrightarrow> insertBetween s xs ! (2 * i) = xs ! i"
proof (induction s xs arbitrary: i rule: insertBetween.induct)
  case (3 sep x y ys)
  then show ?case by (cases i) auto
qed auto

lemma nth_odd_insertBetween: "Suc i < length xs \<Longrightarrow> insertBetween s xs ! (2 * i + 1) = s"
proof (induction s xs arbitrary: i rule: insertBetween.induct)
  case (3 sep x y ys)
  then show ?case by (cases i) auto
qed auto

text \<open>
  Claim C3. An element that has the class \<^verbatim>\<open>spaced\<close> is converted to the output of the
  switch on its tag with one space put between every two neighbouring characters: the
  result is \<open>insertBetween space\<close> of that output, it has \<open>2 n - 1\<close> characters for an
  output of \<open>n\<close>, the characters of the output stand at its even positions and spaces at
  its odd ones, so no space leads or trails.
\<close>

theorem spaced_inserts_spaces:
  "hasClass attrs (str ''spaced'') \<Longrightarrow>
     process (Node ElementNode a d attrs cs)
       = insertBetween space (elementSwitch a attrs (processChildren cs))
     \<and> length (process (Node ElementNode a d attrs cs))
         = 2 * length (elementSwitch a attrs (processChildren cs)) - 1
     \<and> (\<forall>i < length (elementSwitch a attrs (processChildren cs)).
           process (Node ElementNode a d attrs cs) ! (2 * i)
             = elementSwitch a attrs (processChildren cs) ! i)
     \<and> (\<forall>i. Suc i < length (elementSwitch a attrs (processChildren cs)) \<longrightarrow>
           process (Node ElementNode a d attrs cs) ! (2 * i + 1) = space)"
proof -
  assume h: "hasClass attrs (str ''spaced'')"
  let ?ret = "elementSwitch a attrs (processChildren cs)"
  have p: "process (Node ElementNode a d attrs cs) = insertBetween space ?ret"
    using h by (simp add: cssEffects_def spaced_loop_insertBetween)
  show ?thesis
    unfolding p
    using nth_odd_insertBetween [of _ ?ret space]
    by (simp add: length_insertBetween nth_even_insertBetween)
qed

text \<open>
  The property at a spaced span around \<^verbatim>\<open>ab\<close>, which gives \<^verbatim>\<open>a b\<close>, and at a spaced
  italic element around \<^verbatim>\<open>word\<close>, which gives \<^verbatim>\<open>_ w o r d _\<close>.
\<close>

theorem spaced_inserts_spaces_witness:
  "process (elem ''span'' atom_Span [(''class'', ''spaced'')] [tnode (str ''ab'')]) = str ''a b''
   \<and> process (elem ''i'' atom_I [(''class'', ''big spaced'')] [tnode (str ''word'')])
       = str ''_ w o r d _''"
  using spaced_inserts_spaces [of "[\<lparr>Namespace = [], Key = str ''class'', Val = str ''spaced''\<rparr>]"
      atom_Span "str ''span''" "[tnode (str ''ab'')]"]
    spaced_inserts_spaces [of "[\<lparr>Namespace = [], Key = str ''class'', Val = str ''big spaced''\<rparr>]"
      atom_I "str ''i''" "[tnode (str ''word'')]"]
  by (simp add: elem_def tnode_def str_def elementSwitch_def textNode_eq)

section \<open>Properties of the paragraph conversion\<close>

text \<open>The definitions that a closed example unfolds.\<close>

lemmas sample_defs = page_def hr_marker_def elem_def tnode_def extractor0_def str_def

lemmas eval_defs =
  parseAdditionalPage_def bodyChildren_def gq_Children_def gq_Find_def filterFunc_def gq_Is_def
  gq_Text_def sel_hr_marker_def label_weiter_def label_zurueck_def fmt_Sprint_def cssEffects_def
  elementSwitch_def textNode_eq

text \<open>
  Claim C9, as amended. A paragraph element is converted to the spaced effect applied to
  \<^verbatim>\<open>#### \<close> + children + two newlines if it has the class \<^verbatim>\<open>centerbig\<close>, and to
  children + two newlines otherwise. For a paragraph that does not have the class
  \<^verbatim>\<open>spaced\<close> the result is that string itself.
\<close>

theorem paragraph_markdown:
  "process (Node ElementNode atom_P d attrs cs)
     = cssEffects attrs
         ((if hasClass attrs (str ''centerbig'') then str ''#### '' else [])
          @ processChildren cs @ str ''\<newline>\<newline>'')
   \<and> (\<not> hasClass attrs (str ''spaced'') \<longrightarrow>
        process (Node ElementNode atom_P d attrs cs)
          = (if hasClass attrs (str ''centerbig'')
             then str ''#### '' @ processChildren cs @ str ''\<newline>\<newline>''
             else processChildren cs @ str ''\<newline>\<newline>''))"
  by (simp add: elementSwitch_def cssEffects_def)

text \<open>
  The property at a paragraph of class \<^verbatim>\<open>centerbig\<close> and at a paragraph of another
  class.
\<close>

theorem paragraph_markdown_witness:
  "process (elem ''p'' atom_P [(''class'', ''centerbig'')] [tnode (str ''Erstes Buch'')])
     = str ''#### Erstes Buch\<newline>\<newline>''
   \<and> process (elem ''p'' atom_P [(''class'', ''initial'')] [tnode (str ''Es war'')])
     = str ''Es war\<newline>\<newline>''"
  using paragraph_markdown [of "str ''p''" "[\<lparr>Namespace = [], Key = str ''class'', Val = str ''centerbig''\<rparr>]"
      "[tnode (str ''Erstes Buch'')]"]
    paragraph_markdown [of "str ''p''" "[\<lparr>Namespace = [], Key = str ''class'', Val = str ''initial''\<rparr>]"
      "[tnode (str ''Es war'')]"]
  by (simp add: sample_defs eval_defs)

text \<open>
  Claim C9 as it was stated fails for a paragraph of class \<^verbatim>\<open>spaced\<close>: the paragraph
  around \<^verbatim>\<open>ab\<close> does not have the class \<^verbatim>\<open>centerbig\<close>, and its conversion is not
  children + two newlines, since the spaces of the spaced effect are put into it.
\<close>

theorem spaced_paragraph_is_letter_spaced:
  "\<not> hasClass [\<lparr>Namespace = [], Key = str ''class'', Val = str ''spaced''\<rparr>] (str ''centerbig'')
   \<and> process (elem ''p'' atom_P [(''class'', ''spaced'')] [tnode (str ''ab'')])
       = str ''a b \<newline> \<newline>''
   \<and> process (elem ''p'' atom_P [(''class'', ''spaced'')] [tnode (str ''ab'')])
       \<noteq> processChildren [tnode (str ''ab'')] @ str ''\<newline>\<newline>''"
  by (simp add: sample_defs eval_defs spaced_loop.simps)

section \<open>Properties of the content region\<close>

lemma nav_not_marker: "isNavLink n \<Longrightarrow> \<not> isMarker n"
  by (auto simp: isNavLink_def isMarker_def gq_Is_def sel_hr_marker_def str_def)

lemma filterFunc_marker:
  "isMarker n \<Longrightarrow> filterFunc n st = (False, st\<lparr>passedHrs := passedHrs st + 1\<rparr>)"
  by (simp add: filterFunc_def isMarker_def)

lemma filterFunc_nav: "isNavLink n \<Longrightarrow> filterFunc n st = (False, st)"
  using nav_not_marker [of n] by (simp add: filterFunc_def isMarker_def isNavLink_def)

lemma filterFunc_other:
  "\<not> isMarker n \<Longrightarrow> \<not> isNavLink n \<Longrightarrow>
     filterFunc n st =
       (passedHrs st = 1, if passedHrs st \<le> 2 then st else st\<lparr>err := Some ErrParsingPage\<rparr>)"
  by (auto simp: filterFunc_def isMarker_def isNavLink_def)

lemma FilterFunction_without_nav:
  "FilterFunction (filter (\<lambda>n. \<not> isNavLink n) kids) st = FilterFunction kids st"
  by (induction kids arbitrary: st) (auto simp: filterFunc_nav)

lemma filterFunc_keeps:
  "filterFunc k st = (True, st1) \<Longrightarrow> \<not> isMarker k \<and> \<not> isNavLink k"
  by (auto simp: filterFunc_def isMarker_def isNavLink_def split: if_splits)

lemma FilterFunction_kept:
  "n \<in> set (fst (FilterFunction kids st)) \<Longrightarrow> n \<in> set kids \<and> \<not> isNavLink n \<and> \<not> isMarker n"
proof (induction kids arbitrary: st)
  case Nil
  then show ?case by simp
next
  case (Cons k kids)
  obtain keep st1 where f: "filterFunc k st = (keep, st1)"
    by (cases "filterFunc k st") auto
  have s: "fst (FilterFunction (k # kids) st)
             = (if keep then [k] else []) @ fst (FilterFunction kids st1)"
    using f by (simp split: prod.splits)
  show ?case
  proof (cases "n \<in> set (fst (FilterFunction kids st1))")
    case True
    then show ?thesis using Cons.IH [of st1] by simp
  next
    case False
    with Cons.prems s have "keep" "n = k" by (auto split: if_splits)
    with f filterFunc_keeps [of k st st1] show ?thesis by simp
  qed
qed

lemma FilterFunction_err:
  "err (snd (FilterFunction kids st)) = err st
   \<or> err (snd (FilterFunction kids st)) = Some ErrParsingPage"
proof (induction kids arbitrary: st)
  case Nil
  show ?case by simp
next
  case (Cons k kids)
  consider "isMarker k" | "isNavLink k" | "\<not> isMarker k" "\<not> isNavLink k" by blast
  then show ?case
  proof cases
    case 1
    then show ?thesis
      using Cons [of "st\<lparr>passedHrs := passedHrs st + 1\<rparr>"]
      by (auto simp: filterFunc_marker split: prod.splits)
  next
    case 2
    then show ?thesis using Cons [of st] by (auto simp: filterFunc_nav split: prod.splits)
  next
    case 3
    then show ?thesis
      using Cons [of st] Cons [of "st\<lparr>err := Some ErrParsingPage\<rparr>"]
      by (auto simp: filterFunc_other split: prod.splits)
  qed
qed

text \<open>Before the first marker nothing is kept and nothing changes.\<close>

lemma FilterFunction_before:
  "\<forall>n \<in> set pre. \<not> isMarker n \<Longrightarrow> passedHrs st = 0 \<Longrightarrow>
     FilterFunction (pre @ rest) st = FilterFunction rest st"
proof (induction pre)
  case Nil
  show ?case by simp
next
  case (Cons k pre)
  then have "filterFunc k st = (False, st)"
    by (cases "isNavLink k") (simp_all add: filterFunc_nav filterFunc_other)
  with Cons show ?case by simp
qed

lemma FilterFunction_inside:
  "\<forall>n \<in> set mid. \<not> isMarker n \<Longrightarrow> passedHrs st = 1 \<Longrightarrow>
     FilterFunction (mid @ rest) st =
       (filter (\<lambda>n. \<not> isNavLink n) mid @ fst (FilterFunction rest st),
        snd (FilterFunction rest st))"
proof (induction mid)
  case Nil
  show ?case by simp
next
  case (Cons k mid)
  then have "filterFunc k st = (\<not> isNavLink k, st)"
    by (cases "isNavLink k") (simp_all add: filterFunc_nav filterFunc_other)
  with Cons show ?case by (simp split: prod.splits)
qed

lemma FilterFunction_after:
  "2 \<le> passedHrs st \<Longrightarrow> fst (FilterFunction post st) = []"
proof (induction post arbitrary: st)
  case Nil
  show ?case by simp
next
  case (Cons k post)
  consider "isMarker k" | "isNavLink k" | "\<not> isMarker k" "\<not> isNavLink k" by blast
  then show ?case
  proof cases
    case 1
    then show ?thesis
      using Cons(1) [of "st\<lparr>passedHrs := passedHrs st + 1\<rparr>"] Cons(2)
      by (simp add: filterFunc_marker split: prod.splits)
  next
    case 2
    then show ?thesis using Cons(1) [of st] Cons(2) by (simp add: filterFunc_nav split: prod.splits)
  next
    case 3
    then show ?thesis
      using Cons(1) [of st] Cons(1) [of "st\<lparr>err := Some ErrParsingPage\<rparr>"] Cons(2)
      by (auto simp: filterFunc_other split: prod.splits)
  qed
qed

text \<open>What is kept lies strictly between the first and the second marker.\<close>

lemma FilterFunction_between_markers:
  assumes "\<forall>n \<in> set pre. \<not> isMarker n" and "isMarker m1"
    and "\<forall>n \<in> set mid. \<not> isMarker n" and "isMarker m2"
  shows "fst (FilterFunction (pre @ m1 # mid @ m2 # post) \<lparr>passedHrs = 0, err = None\<rparr>)
           = filter (\<lambda>n. \<not> isNavLink n) mid"
proof -
  let ?s1 = "\<lparr>passedHrs = 1, err = None\<rparr>" and ?s2 = "\<lparr>passedHrs = 2, err = None\<rparr>"
  have "FilterFunction (pre @ m1 # mid @ m2 # post) \<lparr>passedHrs = 0, err = None\<rparr>
          = FilterFunction (m1 # mid @ m2 # post) \<lparr>passedHrs = 0, err = None\<rparr>"
    using assms(1) by (simp add: FilterFunction_before)
  also have "\<dots> = FilterFunction (mid @ m2 # post) ?s1"
    using assms(2) by (simp add: filterFunc_marker split: prod.splits)
  also have "fst \<dots> = filter (\<lambda>n. \<not> isNavLink n) mid @ fst (FilterFunction (m2 # post) ?s1)"
    using assms(3) by (simp add: FilterFunction_inside)
  also have "FilterFunction (m2 # post) ?s1 = FilterFunction post ?s2"
    using assms(4) by (simp add: filterFunc_marker numeral_2_eq_2 split: prod.splits)
  also have "fst (FilterFunction post ?s2) = []"
    by (simp add: FilterFunction_after)
  finally show ?thesis by simp
qed

lemma foldl_Fprint:
  "foldl (\<lambda>w n. w @ fmt_Sprint (process n)) w0 content = w0 @ concat (map process content)"
  by (induction content arbitrary: w0) (simp_all add: fmt_Sprint_def)

lemma parseAdditionalPage_Some:
  "fst (parseAdditionalPage e doc) \<noteq> None \<Longrightarrow>
     parseAdditionalPage e doc = (Some ErrParsingPage, e)"
  using FilterFunction_err [of "bodyChildren doc" "\<lparr>passedHrs = 0, err = None\<rparr>"]
  by (auto simp: parseAdditionalPage_def split: prod.splits option.splits)

text \<open>
  The error is set exactly when a child of the body that is neither a marker nor a
  navigation link stands after three or more markers.
\<close>

lemma FilterFunction_Cons_snd:
  "snd (FilterFunction (k # kids) st) = snd (FilterFunction kids (snd (filterFunc k st)))"
  by (simp split: prod.splits)

lemma FilterFunction_err_iff:
  "err (snd (FilterFunction kids st)) = Some ErrParsingPage \<longleftrightarrow>
     err st = Some ErrParsingPage
     \<or> (\<exists>pre n post. kids = pre @ n # post \<and> \<not> isMarker n \<and> \<not> isNavLink n
            \<and> 3 \<le> passedHrs st + length (filter isMarker pre))"
proof (induction kids arbitrary: st)
  case Nil
  show ?case by simp
next
  case (Cons k kids)
  let ?later = "\<lambda>c. \<exists>pre n post. kids = pre @ n # post \<and> \<not> isMarker n \<and> \<not> isNavLink n
            \<and> 3 \<le> c + length (filter isMarker pre)"
  have split: "(\<exists>pre n post. k # kids = pre @ n # post \<and> \<not> isMarker n \<and> \<not> isNavLink n
            \<and> 3 \<le> passedHrs st + length (filter isMarker pre))
      \<longleftrightarrow> (\<not> isMarker k \<and> \<not> isNavLink k \<and> 3 \<le> passedHrs st)
          \<or> ?later (passedHrs st + (if isMarker k then 1 else 0))"
    (is "?L \<longleftrightarrow> ?R")
  proof
    assume ?L
    then obtain pre n post where d: "k # kids = pre @ n # post" "\<not> isMarker n" "\<not> isNavLink n"
      "3 \<le> passedHrs st + length (filter isMarker pre)" by blast
    show ?R
    proof (cases pre)
      case Nil
      with d show ?thesis by simp
    next
      case (Cons p pre')
      with d have "kids = pre' @ n # post" "p = k" by simp_all
      moreover have "3 \<le> (passedHrs st + (if isMarker k then 1 else 0)) + length (filter isMarker pre')"
        using d(4) Cons \<open>p = k\<close> by (cases "isMarker k") simp_all
      ultimately show ?thesis using d(2,3) by blast
    qed
  next
    assume ?R
    then show ?L
    proof
      assume "\<not> isMarker k \<and> \<not> isNavLink k \<and> 3 \<le> passedHrs st"
      then have "k # kids = [] @ k # kids \<and> \<not> isMarker k \<and> \<not> isNavLink k
         \<and> 3 \<le> passedHrs st + length (filter isMarker [])" by simp
      then show ?L by blast
    next
      assume "?later (passedHrs st + (if isMarker k then 1 else 0))"
      then obtain pre n post where d: "kids = pre @ n # post" "\<not> isMarker n" "\<not> isNavLink n"
        "3 \<le> (passedHrs st + (if isMarker k then 1 else 0)) + length (filter isMarker pre)"
        by blast
      then have "k # kids = (k # pre) @ n # post \<and> \<not> isMarker n \<and> \<not> isNavLink n
         \<and> 3 \<le> passedHrs st + length (filter isMarker (k # pre))"
        by (cases "isMarker k") simp_all
      then show ?L by blast
    qed
  qed
  consider "isMarker k" | "isNavLink k" | "\<not> isMarker k" "\<not> isNavLink k" by blast
  then show ?case
  proof cases
    case 1
    then show ?thesis
      unfolding split using Cons [of "st\<lparr>passedHrs := passedHrs st + 1\<rparr>"]
      by (simp add: FilterFunction_Cons_snd filterFunc_marker del: FilterFunction.simps)
  next
    case 2
    then have "\<not> isMarker k" by (simp add: nav_not_marker)
    with 2 show ?thesis
      unfolding split using Cons [of st]
      by (simp add: FilterFunction_Cons_snd filterFunc_nav del: FilterFunction.simps)
  next
    case 3
    show ?thesis
    proof (cases "passedHrs st \<le> 2")
      case True
      with 3 show ?thesis
        unfolding split using Cons [of st]
        by (simp add: FilterFunction_Cons_snd filterFunc_other del: FilterFunction.simps)
    next
      case False
      have "err (snd (FilterFunction kids (st\<lparr>err := Some ErrParsingPage\<rparr>))) = Some ErrParsingPage"
        using Cons [of "st\<lparr>err := Some ErrParsingPage\<rparr>"] by simp
      with 3 False show ?thesis
        unfolding split
        by (simp add: FilterFunction_Cons_snd filterFunc_other del: FilterFunction.simps)
    qed
  qed
qed

lemma parseAdditionalPage_fails_iff:
  "fst (parseAdditionalPage e doc) = Some ErrParsingPage \<longleftrightarrow>
     (\<exists>pre n post. bodyChildren doc = pre @ n # post \<and> \<not> isMarker n \<and> \<not> isNavLink n
        \<and> 3 \<le> length (filter isMarker pre))"
proof -
  let ?r = "FilterFunction (bodyChildren doc) \<lparr>passedHrs = 0, err = None\<rparr>"
  have "fst (parseAdditionalPage e doc) = err (snd ?r)"
    by (simp add: parseAdditionalPage_def split: prod.splits option.splits)
  then show ?thesis
    using FilterFunction_err_iff [of "bodyChildren doc" "\<lparr>passedHrs = 0, err = None\<rparr>"]
    by simp
qed

text \<open>
  On a page that is accepted, what is written is the conversion of the children between
  the first and the second marker that are not navigation links.
\<close>

lemma parseAdditionalPage_between_markers:
  assumes "bodyChildren doc = pre @ m1 # mid @ m2 # post"
    and "\<forall>n \<in> set pre. \<not> isMarker n" and "isMarker m1"
    and "\<forall>n \<in> set mid. \<not> isMarker n" and "isMarker m2"
    and "fst (parseAdditionalPage e doc) = None"
  shows "snd (parseAdditionalPage e doc)
           = e\<lparr>W := W e @ concat (map process (filter (\<lambda>n. \<not> isNavLink n) mid))\<rparr>"
proof -
  have "fst (FilterFunction (bodyChildren doc) \<lparr>passedHrs = 0, err = None\<rparr>)
          = filter (\<lambda>n. \<not> isNavLink n) mid"
    unfolding assms(1) using assms(2-5) by (rule FilterFunction_between_markers)
  then show ?thesis
    using assms(6)
    by (auto simp: parseAdditionalPage_def foldl_Fprint split: prod.splits option.splits)
qed

text \<open>
  Claim C1. A child of the body is kept only while exactly one marker has been seen, and
  a page with three or more markers is to fail with \<^verbatim>\<open>ErrParsingPage\<close>. The first half
  is \<open>parseAdditionalPage_between_markers\<close> above. The second half does not hold of the
  code: the marker branch of the filter function returns before the switch that sets the
  error, so the error is set only when a child that is neither a marker nor a navigation
  link comes after the third marker (\<open>parseAdditionalPage_fails_iff\<close>). The page below has
  three markers, the third one last; it is accepted and its paragraph is written.
\<close>

theorem three_markers_not_rejected:
  "length (filter isMarker
      (bodyChildren (page [hr_marker, elem ''p'' atom_P [] [tnode (str ''x'')], hr_marker, hr_marker]))) = 3
   \<and> parseAdditionalPage extractor0
        (page [hr_marker, elem ''p'' atom_P [] [tnode (str ''x'')], hr_marker, hr_marker])
       = (None, extractor0\<lparr>W := str ''x\<newline>\<newline>''\<rparr>)"
  by (simp add: sample_defs eval_defs isMarker_def)

text \<open>
  Claim C10. When \<^verbatim>\<open>parseAdditionalPage\<close> fails with \<^verbatim>\<open>ErrParsingPage\<close> on a page, the
  extractor is as it was before the call, so nothing has been written to its buffer, and
  \<^verbatim>\<open>FetchAndProcessChapter\<close> on that page returns the same error and leaves the extractor
  as it was too.
\<close>

theorem parse_failure_writes_nothing:
  "fst (parseAdditionalPage e doc) = Some ErrParsingPage \<Longrightarrow>
     snd (parseAdditionalPage e doc) = e
     \<and> W (snd (parseAdditionalPage e doc)) = W e
     \<and> FetchAndProcessChapter e chapterUrl (Inr doc) = (Some ErrParsingPage, e)"
proof -
  assume "fst (parseAdditionalPage e doc) = Some ErrParsingPage"
  then have "parseAdditionalPage e doc = (Some ErrParsingPage, e)"
    using parseAdditionalPage_Some [of e doc] by simp
  then show ?thesis by (simp add: FetchAndProcessChapter_def)
qed

text \<open>
  The property at a page that fails (a paragraph after three markers), with an extractor
  that has written a heading before.
\<close>

theorem parse_failure_writes_nothing_witness:
  "fst (parseAdditionalPage (extractor0\<lparr>W := str ''# Faust''\<rparr>)
          (page [hr_marker, hr_marker, hr_marker, elem ''p'' atom_P [] [tnode (str ''x'')]]))
     = Some ErrParsingPage
   \<and> W (snd (parseAdditionalPage (extractor0\<lparr>W := str ''# Faust''\<rparr>)
          (page [hr_marker, hr_marker, hr_marker, elem ''p'' atom_P [] [tnode (str ''x'')]])))
     = str ''# Faust''
   \<and> FetchAndProcessChapter (extractor0\<lparr>W := str ''# Faust''\<rparr>) (str ''b/titlepage.html'')
        (Inr (page [hr_marker, hr_marker, hr_marker, elem ''p'' atom_P [] [tnode (str ''x'')]]))
     = (Some ErrParsingPage, extractor0\<lparr>W := str ''# Faust''\<rparr>)"
proof -
  have h: "fst (parseAdditionalPage (extractor0\<lparr>W := str ''# Faust''\<rparr>)
          (page [hr_marker, hr_marker, hr_marker, elem ''p'' atom_P [] [tnode (str ''x'')]]))
     = Some ErrParsingPage"
    by (simp add: sample_defs eval_defs)
  show ?thesis
    using h parse_failure_writes_nothing [OF h, of "str ''b/titlepage.html''"]
    by (simp add: extractor0_def)
qed

text \<open>
  Claim C5, as amended. A link with one of the two navigation labels as its text that is
  a direct child of the body is never kept, whatever the number of markers seen before
  it; a page is converted as the page without these links is: two pages whose bodies have
  the same children apart from such links give the same result.
\<close>

theorem nav_links_among_body_children_discarded:
  "(\<forall>n \<in> set (fst (FilterFunction (bodyChildren doc) st)). \<not> isNavLink n)
   \<and> (filter (\<lambda>n. \<not> isNavLink n) (bodyChildren doc)
         = filter (\<lambda>n. \<not> isNavLink n) (bodyChildren doc')
       \<longrightarrow> parseAdditionalPage e doc = parseAdditionalPage e doc')"
proof -
  have a: "\<forall>n \<in> set (fst (FilterFunction (bodyChildren doc) st)). \<not> isNavLink n"
    using FilterFunction_kept by blast
  have b: "parseAdditionalPage e doc = parseAdditionalPage e doc'"
    if "filter (\<lambda>n. \<not> isNavLink n) (bodyChildren doc)
          = filter (\<lambda>n. \<not> isNavLink n) (bodyChildren doc')"
  proof -
    have "FilterFunction (bodyChildren doc) \<lparr>passedHrs = 0, err = None\<rparr>
            = FilterFunction (bodyChildren doc') \<lparr>passedHrs = 0, err = None\<rparr>"
      using that FilterFunction_without_nav [of "bodyChildren doc"]
        FilterFunction_without_nav [of "bodyChildren doc'"]
      by simp
    then show ?thesis by (simp add: parseAdditionalPage_def)
  qed
  from a b show ?thesis by blast
qed

text \<open>
  The property at a page with one navigation link before the first marker and one
  between the markers, and the same page without them.
\<close>

theorem nav_links_among_body_children_discarded_witness:
  "parseAdditionalPage extractor0
      (page [elem ''a'' atom_A [] [tnode label_zurueck], hr_marker,
             elem ''a'' atom_A [] [tnode label_weiter],
             elem ''p'' atom_P [] [tnode (str ''x'')], hr_marker])
     = parseAdditionalPage extractor0
        (page [hr_marker, elem ''p'' atom_P [] [tnode (str ''x'')], hr_marker])
   \<and> parseAdditionalPage extractor0
        (page [hr_marker, elem ''p'' atom_P [] [tnode (str ''x'')], hr_marker])
       = (None, extractor0\<lparr>W := str ''x\<newline>\<newline>''\<rparr>)"
  using nav_links_among_body_children_discarded
    [of "page [elem ''a'' atom_A [] [tnode label_zurueck], hr_marker,
             elem ''a'' atom_A [] [tnode label_weiter],
             elem ''p'' atom_P [] [tnode (str ''x'')], hr_marker]"
        "\<lparr>passedHrs = 0, err = None\<rparr>"
        "page [hr_marker, elem ''p'' atom_P [] [tnode (str ''x'')], hr_marker]" extractor0]
  by (simp add: sample_defs eval_defs isNavLink_def)

text \<open>
  Claim C5 as it was stated fails for a navigation link that is not a direct child of the
  body: the link inside a \<^verbatim>\<open>div\<close> between the markers is converted with the \<^verbatim>\<open>div\<close>,
  and its label is the Markdown that is written.
\<close>

theorem nested_nav_link_is_converted:
  "isNavLink (elem ''a'' atom_A [] [tnode label_weiter])
   \<and> parseAdditionalPage extractor0
        (page [hr_marker, elem ''div'' atom_Div [] [elem ''a'' atom_A [] [tnode label_weiter]],
               hr_marker])
       = (None, extractor0\<lparr>W := label_weiter\<rparr>)"
  by (simp add: sample_defs eval_defs isNavLink_def)

section \<open>Properties of the document assembler\<close>

text \<open>
  Claim C4, as amended. When the page of a chapter is parsed without an error, the buffer
  holds what it held before followed by the conversion of the kept children; after it
  comes \<^verbatim>\<open>\n----------------\n\n\<close> (the literal of the source and the newline that
  \<^verbatim>\<open>Fprintln\<close> adds) if \<^verbatim>\<open>path.Base\<close> of the chapter URL is \<^verbatim>\<open>titlepage.html\<close>, and
  nothing otherwise.
\<close>

theorem separator_after_titlepage:
  "fst (parseAdditionalPage e doc) = None \<Longrightarrow>
     FetchAndProcessChapter e chapterUrl (Inr doc)
       = (None, (snd (parseAdditionalPage e doc))
            \<lparr>W := W (snd (parseAdditionalPage e doc))
                   @ (if path_Base chapterUrl = str ''titlepage.html''
                      then str ''\<newline>----------------\<newline>\<newline>'' else [])\<rparr>)
     \<and> W (snd (parseAdditionalPage e doc))
         = W e @ concat (map process
                   (fst (FilterFunction (bodyChildren doc) \<lparr>passedHrs = 0, err = None\<rparr>)))"
proof -
  assume h: "fst (parseAdditionalPage e doc) = None"
  obtain e1 where p: "parseAdditionalPage e doc = (None, e1)"
    using h by (cases "parseAdditionalPage e doc") auto
  have w: "W e1 = W e @ concat (map process
                   (fst (FilterFunction (bodyChildren doc) \<lparr>passedHrs = 0, err = None\<rparr>)))"
    using p by (auto simp: parseAdditionalPage_def foldl_Fprint split: prod.splits option.splits)
  have f: "FetchAndProcessChapter e chapterUrl (Inr doc)
       = (None, e1\<lparr>W := W e1 @ (if path_Base chapterUrl = str ''titlepage.html''
                      then str ''\<newline>----------------\<newline>\<newline>'' else [])\<rparr>)"
    using p by (simp add: FetchAndProcessChapter_def fmt_Sprintln_def str_def)
  from p w f show ?thesis by simp
qed

text \<open>The property at a title page and at a first chapter, after an \<^verbatim>\<open>x\<close> in the buffer.\<close>

theorem separator_after_titlepage_witness:
  "FetchAndProcessChapter (extractor0\<lparr>W := str ''x''\<rparr>) (str ''https://projekt-gutenberg.org/a/b/titlepage.html'')
      (Inr (page [hr_marker, elem ''h1'' atom_H1 [] [tnode (str ''T'')], hr_marker]))
     = (None, extractor0\<lparr>W := str ''x# T\<newline>\<newline>----------------\<newline>\<newline>''\<rparr>)
   \<and> FetchAndProcessChapter (extractor0\<lparr>W := str ''x''\<rparr>) (str ''https://projekt-gutenberg.org/a/b/chap001.html'')
      (Inr (page [hr_marker, elem ''h1'' atom_H1 [] [tnode (str ''T'')], hr_marker]))
     = (None, extractor0\<lparr>W := str ''x# T\<newline>''\<rparr>)"
proof -
  have h: "fst (parseAdditionalPage (extractor0\<lparr>W := str ''x''\<rparr>)
             (page [hr_marker, elem ''h1'' atom_H1 [] [tnode (str ''T'')], hr_marker])) = None"
    by (simp add: sample_defs eval_defs)
  show ?thesis
    using separator_after_titlepage [OF h, of "str ''https://projekt-gutenberg.org/a/b/titlepage.html''"]
      separator_after_titlepage [OF h, of "str ''https://projekt-gutenberg.org/a/b/chap001.html''"]
    by (simp add: sample_defs eval_defs path_Base_def)
qed

text \<open>
  Claim C4 as it was stated fails at a title page: what is appended after the content
  \<^verbatim>\<open># T\n\<close> is not \<^verbatim>\<open>\n----------------\n\<close> but that string and one more newline.
\<close>

theorem titlepage_separator_ends_with_two_newlines:
  "FetchAndProcessChapter extractor0 (str ''https://projekt-gutenberg.org/a/b/titlepage.html'')
      (Inr (page [hr_marker, elem ''h1'' atom_H1 [] [tnode (str ''T'')], hr_marker]))
     = (None, extractor0\<lparr>W := str ''# T\<newline>'' @ str ''\<newline>----------------\<newline>\<newline>''\<rparr>)
   \<and> FetchAndProcessChapter extractor0 (str ''https://projekt-gutenberg.org/a/b/titlepage.html'')
      (Inr (page [hr_marker, elem ''h1'' atom_H1 [] [tnode (str ''T'')], hr_marker]))
     \<noteq> (None, extractor0\<lparr>W := str ''# T\<newline>'' @ str ''\<newline>----------------\<newline>''\<rparr>)"
  by (simp add: sample_defs eval_defs FetchAndProcessChapter_def path_Base_def fmt_Sprintln_def)

section \<open>Properties of the URL normalizer\<close>

subsection \<open>Splitting and trimming\<close>

lemma strings_Split_not_Nil: "strings_Split s sep \<noteq> []"
  by (induction s) (auto split: list.splits)

lemma strings_Split_no_sep: "sep \<notin> set x \<Longrightarrow> strings_Split x sep = [x]"
  by (induction x) auto

lemma strings_Split_append:
  "sep \<notin> set x \<Longrightarrow> strings_Split (x @ sep # y) sep = x # strings_Split y sep"
  by (induction x) auto

lemma strings_Split_pieces: "x \<in> set (strings_Split s sep) \<Longrightarrow> sep \<notin> set x"
proof (induction s arbitrary: x)
  case Nil
  then show ?case by simp
next
  case (Cons c cs)
  then show ?case
    by (cases "strings_Split cs sep") (auto split: if_splits)
qed

lemma strings_Split_hd:
  "s \<noteq> [] \<Longrightarrow> hd s \<noteq> sep \<Longrightarrow> hd (strings_Split s sep) \<noteq> []"
  by (cases s) (auto split: list.splits)

lemma rev_dropWhile_rev_hd:
  "rev (dropWhile P (rev xs)) \<noteq> [] \<Longrightarrow> hd (rev (dropWhile P (rev xs))) = hd xs"
proof (induction xs rule: rev_induct)
  case Nil
  then show ?case by simp
next
  case (snoc y ys)
  show ?case
  proof (cases "P y")
    case True
    with snoc show ?thesis by (cases ys) auto
  next
    case False
    then show ?thesis by simp
  qed
qed

lemma strings_Trim_hd:
  "strings_Trim s [c] \<noteq> [] \<Longrightarrow> hd (strings_Trim s [c]) \<noteq> c"
proof -
  assume ne: "strings_Trim s [c] \<noteq> []"
  let ?s1 = "dropWhile (\<lambda>x. x \<in> set [c]) s"
  have t: "strings_Trim s [c] = rev (dropWhile (\<lambda>x. x \<in> set [c]) (rev ?s1))"
    by (simp add: strings_Trim_def)
  have "?s1 \<noteq> []"
  proof
    assume "?s1 = []"
    then show False using ne unfolding t by (simp del: dropWhile_eq_Nil_conv)
  qed
  then have "hd ?s1 \<noteq> c" using hd_dropWhile [of "\<lambda>x. x \<in> set [c]" s] by simp
  moreover have "hd (strings_Trim s [c]) = hd ?s1"
    using ne rev_dropWhile_rev_hd [of "\<lambda>x. x \<in> set [c]" ?s1] unfolding t by blast
  ultimately show ?thesis by simp
qed

lemma strings_Trim_two:
  assumes "x \<noteq> []" "c \<notin> set x" "y \<noteq> []" "c \<notin> set y"
  shows "strings_Trim (c # x @ c # y) [c] = x @ c # y"
proof -
  obtain x0 xs where x: "x = x0 # xs" using assms(1) by (cases x) auto
  obtain ys y0 where y: "y = ys @ [y0]" using assms(3) by (cases y rule: rev_cases) auto
  have "dropWhile (\<lambda>z. z \<in> set [c]) (c # x @ c # y) = x @ c # y"
    using assms(2) x by auto
  moreover have "dropWhile (\<lambda>z. z \<in> set [c]) (rev (x @ c # y)) = rev (x @ c # y)"
    using assms(4) y by auto
  ultimately show ?thesis by (simp add: strings_Trim_def)
qed

lemma strings_Join_take2:
  "2 \<le> length sp \<Longrightarrow> strings_Join (take 2 sp) sep = sp ! 0 @ sep @ sp ! 1"
proof -
  assume "2 \<le> length sp"
  then obtain a b rest where "sp = a # b # rest"
    by (cases sp; cases "tl sp") auto
  then show ?thesis by (simp add: numeral_2_eq_2)
qed

text \<open>
  Splitting the path and dropping the empty segments at the two ends gives the segments of
  the trimmed path, or none where the trimmed path is empty; fewer than two in the one
  reading is fewer than two in the other.
\<close>

lemma strings_Split_drop_leading:
  "dropWhile (\<lambda>x. x = []) (strings_Split p sep)
     = (if dropWhile (\<lambda>c. c = sep) p = [] then []
        else strings_Split (dropWhile (\<lambda>c. c = sep) p) sep)"
proof (induction p)
  case Nil
  show ?case by simp
next
  case (Cons c cs)
  show ?case
  proof (cases "c = sep")
    case True
    with Cons show ?thesis by simp
  next
    case False
    then show ?thesis by (cases "strings_Split cs sep") simp_all
  qed
qed

lemma strings_Split_snoc_sep: "strings_Split (p @ [sep]) sep = strings_Split p sep @ [[]]"
  by (induction p) (auto simp: strings_Split_not_Nil split: list.splits)

lemma strings_Split_snoc_other:
  "c \<noteq> sep \<Longrightarrow>
     strings_Split (p @ [c]) sep = butlast (strings_Split p sep) @ [last (strings_Split p sep) @ [c]]"
proof (induction p)
  case Nil
  then show ?case by simp
next
  case (Cons x xs)
  then show ?case
    by (cases "strings_Split xs sep"; cases "strings_Split (xs @ [c]) sep")
       (auto simp: strings_Split_not_Nil split: if_splits)
qed

lemma strings_Split_drop_trailing:
  "rev (dropWhile (\<lambda>x. x = []) (rev (strings_Split q sep)))
     = (if rev (dropWhile (\<lambda>c. c = sep) (rev q)) = [] then []
        else strings_Split (rev (dropWhile (\<lambda>c. c = sep) (rev q))) sep)"
proof (induction q rule: rev_induct)
  case Nil
  show ?case by simp
next
  case (snoc y ys)
  show ?case
  proof (cases "y = sep")
    case True
    with snoc show ?thesis by (simp add: strings_Split_snoc_sep)
  next
    case False
    then show ?thesis by (simp add: strings_Split_snoc_other)
  qed
qed

lemma trimEmpty_strings_Split:
  "trimEmpty (strings_Split p sep)
     = (if strings_Trim p [sep] = [] then [] else strings_Split (strings_Trim p [sep]) sep)"
proof -
  let ?p1 = "dropWhile (\<lambda>c. c = sep) p"
  have t: "strings_Trim p [sep] = rev (dropWhile (\<lambda>c. c = sep) (rev ?p1))"
    by (simp add: strings_Trim_def)
  show ?thesis
  proof (cases "?p1 = []")
    case True
    then have "trimEmpty (strings_Split p sep) = []"
      unfolding trimEmpty_def strings_Split_drop_leading by (simp del: dropWhile_eq_Nil_conv)
    moreover have "strings_Trim p [sep] = []"
      unfolding t using True by (simp del: dropWhile_eq_Nil_conv)
    ultimately show ?thesis by simp
  next
    case False
    then have "trimEmpty (strings_Split p sep)
                 = rev (dropWhile (\<lambda>x. x = []) (rev (strings_Split ?p1 sep)))"
      unfolding trimEmpty_def strings_Split_drop_leading by (simp del: dropWhile_eq_Nil_conv)
    then show ?thesis
      unfolding t strings_Split_drop_trailing by simp
  qed
qed

lemma fewer_than_two_segments:
  "(length (strings_Split (strings_Trim p (str ''/'')) slash) < 2)
     = (length (trimEmpty (strings_Split p slash)) < 2)"
proof -
  have "str ''/'' = [slash]" by (simp add: str_def)
  then show ?thesis by (simp add: trimEmpty_strings_Split)
qed

subsection \<open>getBaseUrl\<close>

lemma getBaseUrl_Inr:
  "getBaseUrl (Inr u) =
     (if \<not> (Scheme u = str ''http'' \<or> Scheme u = str ''https'')
         \<or> \<not> (Host u = str ''projekt-gutenberg.org'' \<or> Host u = str ''www.projekt-gutenberg.org'')
         \<or> length (spPath u) < 2
      then Inl ErrInvalidURL
      else Inr (Scheme u @ str ''://projekt-gutenberg.org/'' @ spPath u ! 0 @ str ''/'' @ spPath u ! 1))"
  by (auto simp: getBaseUrl_def spPath_def Let_def strings_Join_take2)

lemma spPath_two_segments:
  assumes "2 \<le> length (spPath u)" and "spPath u ! 1 \<noteq> []"
    and "Path u' = str ''/'' @ spPath u ! 0 @ str ''/'' @ spPath u ! 1"
  shows "spPath u' = [spPath u ! 0, spPath u ! 1]"
proof -
  let ?t = "strings_Trim (Path u) [slash]"
  have sp: "spPath u = strings_Split ?t slash" by (simp add: spPath_def str_def)
  have "?t \<noteq> []"
  proof
    assume "?t = []"
    then have "spPath u = [[]]" using sp by simp
    with assms(1) show False by simp
  qed
  then have "hd ?t \<noteq> slash" using strings_Trim_hd [of "Path u" slash] by simp
  with \<open>?t \<noteq> []\<close> have "hd (spPath u) \<noteq> []" using strings_Split_hd [of ?t slash] sp by simp
  then have x: "spPath u ! 0 \<noteq> []" using assms(1) by (cases "spPath u") auto
  have "spPath u ! 0 \<in> set (spPath u)" "spPath u ! 1 \<in> set (spPath u)"
    using assms(1) by (auto intro!: nth_mem)
  moreover have "\<forall>x \<in> set (spPath u). slash \<notin> set x"
    unfolding spPath_def using strings_Split_pieces by blast
  ultimately have ns: "slash \<notin> set (spPath u ! 0)" "slash \<notin> set (spPath u ! 1)"
    by blast+
  have "Path u' = slash # spPath u ! 0 @ slash # spPath u ! 1"
    using assms(3) by (simp add: str_def)
  then have "strings_Trim (Path u') [slash] = spPath u ! 0 @ slash # spPath u ! 1"
    using strings_Trim_two [OF x ns(1) assms(2) ns(2)] by simp
  then have "spPath u' = strings_Split (spPath u ! 0 @ slash # spPath u ! 1) slash"
    by (simp add: spPath_def str_def)
  then show ?thesis using ns by (simp add: strings_Split_append strings_Split_no_sep)
qed

text \<open>
  Claim C7, as amended. \<^verbatim>\<open>getBaseUrl\<close> fails exactly when the raw URL cannot be parsed,
  when the scheme is neither \<^verbatim>\<open>http\<close> nor \<^verbatim>\<open>https\<close>, when the host is neither the site
  host nor the site host after \<^verbatim>\<open>www.\<close>, or when fewer than two segments are left of the
  path split at the slashes once the empty segments at its two ends are dropped (which is
  when the path trimmed of slashes, as the code has it, splits into fewer than two). The
  error is \<^verbatim>\<open>ErrInvalidURL\<close> in the last three cases and in no other;
  for a raw URL that cannot be parsed it is the error of the URL parser.
\<close>

theorem getBaseUrl_fails_exactly_when:
  "getBaseUrl (Inl msg) = Inl (LibError msg)
   \<and> (getBaseUrl (Inr u) = Inl ErrInvalidURL)
       = (\<not> (Scheme u = str ''http'' \<or> Scheme u = str ''https'')
          \<or> \<not> (Host u = str ''projekt-gutenberg.org'' \<or> Host u = str ''www.projekt-gutenberg.org'')
          \<or> length (trimEmpty (strings_Split (Path u) slash)) < 2)
   \<and> (length (trimEmpty (strings_Split (Path u) slash)) < 2)
       = (length (strings_Split (strings_Trim (Path u) (str ''/'')) slash) < 2)
   \<and> (\<exists>e. getBaseUrl (Inr u) = Inl e) = (getBaseUrl (Inr u) = Inl ErrInvalidURL)"
proof -
  have "getBaseUrl (Inl msg) = Inl (LibError msg)"
    by (simp add: getBaseUrl_def)
  then show ?thesis
    unfolding fewer_than_two_segments [symmetric]
    by (auto simp: getBaseUrl_Inr spPath_def)
qed

text \<open>
  The property at a URL with a wrong scheme, one with a wrong host, one with a single
  path segment and one that is accepted.
\<close>

theorem getBaseUrl_fails_exactly_when_witness:
  "getBaseUrl (Inr (url_of ''ftp'' ''projekt-gutenberg.org'' ''/nietzsch/zara'' [] [])) = Inl ErrInvalidURL
   \<and> getBaseUrl (Inr (url_of ''https'' ''example.org'' ''/nietzsch/zara'' [] [])) = Inl ErrInvalidURL
   \<and> getBaseUrl (Inr (url_of ''https'' ''www.projekt-gutenberg.org'' ''/nietzsch/'' [] [])) = Inl ErrInvalidURL
   \<and> getBaseUrl (Inr (url_of ''https'' ''www.projekt-gutenberg.org'' ''/nietzsch/zara'' [] []))
       \<noteq> Inl ErrInvalidURL"
  using getBaseUrl_fails_exactly_when [of _ "url_of ''ftp'' ''projekt-gutenberg.org'' ''/nietzsch/zara'' [] []"]
    getBaseUrl_fails_exactly_when [of _ "url_of ''https'' ''example.org'' ''/nietzsch/zara'' [] []"]
    getBaseUrl_fails_exactly_when [of _ "url_of ''https'' ''www.projekt-gutenberg.org'' ''/nietzsch/'' [] []"]
    getBaseUrl_fails_exactly_when [of _ "url_of ''https'' ''www.projekt-gutenberg.org'' ''/nietzsch/zara'' [] []"]
  by (simp add: url_of_def str_def strings_Trim_def)

text \<open>
  Claim C7 as it was stated fails for a raw URL that cannot be parsed, such as \<^verbatim>\<open>:\<close>,
  for which \<^verbatim>\<open>url.Parse\<close> reports a missing protocol scheme: the error returned is that
  one, not \<^verbatim>\<open>ErrInvalidURL\<close>.
\<close>

theorem unparseable_url_keeps_parser_error:
  "getBaseUrl (Inl (str ''missing protocol scheme'')) = Inl (LibError (str ''missing protocol scheme''))
   \<and> getBaseUrl (Inl (str ''missing protocol scheme'')) \<noteq> Inl ErrInvalidURL"
  by (simp add: getBaseUrl_def)

text \<open>
  Claim C8, as amended. For an accepted URL the result is the scheme, \<^verbatim>\<open>://\<close>, the site
  host, and the first two segments of the path after a slash each. It depends on nothing
  else: every URL with the same scheme, an accepted host and the same first two segments
  (whatever its further segments, query and fragment) gives the same result. If the
  second segment is not empty, the URL whose path is just these two segments gives the
  same result.
\<close>

theorem getBaseUrl_keeps_two_segments:
  "getBaseUrl (Inr u) = Inr b \<Longrightarrow>
     2 \<le> length (spPath u)
     \<and> b = Scheme u @ str ''://projekt-gutenberg.org/'' @ spPath u ! 0 @ str ''/'' @ spPath u ! 1
     \<and> (\<forall>u'. Scheme u' = Scheme u
            \<and> (Host u' = str ''projekt-gutenberg.org'' \<or> Host u' = str ''www.projekt-gutenberg.org'')
            \<and> take 2 (spPath u') = take 2 (spPath u) \<and> 2 \<le> length (spPath u')
          \<longrightarrow> getBaseUrl (Inr u') = Inr b)
     \<and> (spPath u ! 1 \<noteq> [] \<longrightarrow>
          (\<forall>u'. Scheme u' = Scheme u
            \<and> (Host u' = str ''projekt-gutenberg.org'' \<or> Host u' = str ''www.projekt-gutenberg.org'')
            \<and> Path u' = str ''/'' @ spPath u ! 0 @ str ''/'' @ spPath u ! 1
          \<longrightarrow> getBaseUrl (Inr u') = Inr b))"
proof -
  assume h: "getBaseUrl (Inr u) = Inr b"
  then have ok: "Scheme u = str ''http'' \<or> Scheme u = str ''https''" "2 \<le> length (spPath u)"
    and b: "b = Scheme u @ str ''://projekt-gutenberg.org/'' @ spPath u ! 0 @ str ''/'' @ spPath u ! 1"
    by (auto simp: getBaseUrl_Inr split: if_splits)
  have same: "getBaseUrl (Inr u') = Inr b"
    if "Scheme u' = Scheme u"
      "Host u' = str ''projekt-gutenberg.org'' \<or> Host u' = str ''www.projekt-gutenberg.org''"
      "take 2 (spPath u') = take 2 (spPath u)" "2 \<le> length (spPath u')" for u'
  proof -
    have "spPath u' ! 0 = take 2 (spPath u') ! 0" "spPath u' ! 1 = take 2 (spPath u') ! 1"
      by simp_all
    then have "spPath u' ! 0 = spPath u ! 0" "spPath u' ! 1 = spPath u ! 1"
      using that(3) by simp_all
    with that ok b show ?thesis by (simp add: getBaseUrl_Inr)
  qed
  have two: "getBaseUrl (Inr u') = Inr b"
    if "spPath u ! 1 \<noteq> []" "Scheme u' = Scheme u"
      "Host u' = str ''projekt-gutenberg.org'' \<or> Host u' = str ''www.projekt-gutenberg.org''"
      "Path u' = str ''/'' @ spPath u ! 0 @ str ''/'' @ spPath u ! 1" for u'
  proof -
    have "spPath u' = [spPath u ! 0, spPath u ! 1]"
      using spPath_two_segments [OF ok(2) that(1) that(4)] .
    with that ok b show ?thesis by (simp add: getBaseUrl_Inr)
  qed
  from ok(2) b same two show ?thesis by blast
qed

text \<open>
  The property at the URL of a chapter with a query and a fragment, and at the URL of its
  book.
\<close>

theorem getBaseUrl_keeps_two_segments_witness:
  "getBaseUrl (Inr (url_of ''https'' ''www.projekt-gutenberg.org'' ''/nietzsch/zara/zara.html'' ''x=1'' ''top''))
     = Inr (str ''https://projekt-gutenberg.org/nietzsch/zara'')
   \<and> getBaseUrl (Inr (url_of ''https'' ''projekt-gutenberg.org'' ''/nietzsch/zara'' [] []))
     = Inr (str ''https://projekt-gutenberg.org/nietzsch/zara'')"
proof -
  let ?u = "url_of ''https'' ''www.projekt-gutenberg.org'' ''/nietzsch/zara/zara.html'' ''x=1'' ''top''"
  have h: "getBaseUrl (Inr ?u) = Inr (str ''https://projekt-gutenberg.org/nietzsch/zara'')"
    by (simp add: getBaseUrl_def url_of_def str_def strings_Trim_def)
  have s: "spPath ?u = [str ''nietzsch'', str ''zara'', str ''zara.html'']"
    by (simp add: spPath_def url_of_def str_def strings_Trim_def)
  show ?thesis
    using h s getBaseUrl_keeps_two_segments [OF h]
    by (simp add: url_of_def str_def)
qed

text \<open>
  Claim C8 as it was stated fails for an accepted URL whose second segment is empty: the
  path \<^verbatim>\<open>/a//b\<close> has the segments \<^verbatim>\<open>a\<close>, the empty one and \<^verbatim>\<open>b\<close>, and is normalized
  to a URL that ends in \<^verbatim>\<open>/a/\<close>; the two-segment form of the same pair has the path
  \<^verbatim>\<open>/a/\<close>, which is trimmed to one segment and refused.
\<close>

theorem empty_second_segment_not_idempotent:
  "getBaseUrl (Inr (url_of ''http'' ''projekt-gutenberg.org'' ''/a//b'' [] []))
     = Inr (str ''http://projekt-gutenberg.org/a/'')
   \<and> getBaseUrl (Inr (url_of ''http'' ''projekt-gutenberg.org'' ''/a/'' [] [])) = Inl ErrInvalidURL"
  by (simp add: getBaseUrl_def url_of_def str_def strings_Trim_def)

section \<open>Properties of the index parser\<close>

lemma MatchAll_Match: "n \<in> set (MatchAll s anc m) \<Longrightarrow> \<exists>anc'. Match s anc' n"
proof (induction s anc m rule: MatchAll.induct)
  case (1 s anc ty a d attrs cs)
  then show ?case by (auto split: if_splits)
qed

lemma gq_Find_Match: "n \<in> set (gq_Find s anc m) \<Longrightarrow> \<exists>anc'. Match s anc' n"
  by (auto simp: gq_Find_def split: if_splits dest: MatchAll_Match)

lemma find_list_ex: "list_ex P xs \<Longrightarrow> \<exists>x \<in> set xs. P x \<and> find P xs = Some x"
  by (induction xs) auto

lemma hrefOf_is_href:
  assumes "gq_Find sel_a_href [] li \<noteq> []"
  shows "\<exists>at \<in> set (Attr (hd (gq_Find sel_a_href [] li))).
           Key at = str ''href'' \<and> Val at = hrefOf li"
    and "Type (hd (gq_Find sel_a_href [] li)) = ElementNode \<and> Data (hd (gq_Find sel_a_href [] li)) = str ''a''"
proof -
  obtain l ls where f: "gq_Find sel_a_href [] li = l # ls"
    using assms by (cases "gq_Find sel_a_href [] li") auto
  then have "l \<in> set (gq_Find sel_a_href [] li)" by simp
  then obtain anc' where m: "Match sel_a_href anc' l" using gq_Find_Match by blast
  then have "list_ex (\<lambda>a. Key a = str ''href'') (Attr l)" by (simp add: sel_a_href_def)
  then obtain at where "at \<in> set (Attr l)" "Key at = str ''href''"
    "find (\<lambda>a. Key a = str ''href'') (Attr l) = Some at"
    using find_list_ex [of "\<lambda>a. Key a = str ''href''" "Attr l"] by blast
  then show "\<exists>at \<in> set (Attr (hd (gq_Find sel_a_href [] li))).
           Key at = str ''href'' \<and> Val at = hrefOf li"
    using f by (auto simp: hrefOf_def gq_Attr_def)
  show "Type (hd (gq_Find sel_a_href [] li)) = ElementNode \<and> Data (hd (gq_Find sel_a_href [] li)) = str ''a''"
    using m f by (simp add: sel_a_href_def)
qed

lemma getChapters_Each_all_links:
  "\<forall>li \<in> set lis. gq_Find sel_a_href [] li \<noteq> [] \<Longrightarrow>
     getChapters_Each baseUrl lis chapterUrls
       = Inr (chapterUrls @ map (\<lambda>li. baseUrl @ str ''/'' @ hrefOf li) lis)"
  by (induction lis arbitrary: chapterUrls) (simp_all add: hrefOf_def Let_def)

lemma getChapters_Each_missing_link:
  "\<exists>li \<in> set lis. gq_Find sel_a_href [] li = [] \<Longrightarrow>
     getChapters_Each baseUrl lis chapterUrls = Inl (Panic (str ''missing link in chapter index''))"
  by (induction lis arbitrary: chapterUrls) (auto simp: Let_def)

text \<open>
  Claim C6, as amended. Let the list items be the \<^verbatim>\<open>li\<close> elements under a \<^verbatim>\<open>ul\<close>
  element under the body, in document order. If each of them has a link with an
  \<^verbatim>\<open>href\<close> attribute among its descendants, \<^verbatim>\<open>getChapters\<close> fails with
  \<^verbatim>\<open>ErrNoChaptersFound\<close> when there is no list item, and otherwise returns one URL for
  each list item, in that order, each the base URL, a slash and the \<^verbatim>\<open>href\<close> of the first
  link of the item.
\<close>

theorem getChapters_lists_links_in_order:
  "\<forall>li \<in> set (gq_Find sel_body_ul_li [] doc). gq_Find sel_a_href [] li \<noteq> [] \<Longrightarrow>
     getChapters baseUrl doc
       = (if gq_Find sel_body_ul_li [] doc = [] then Inl ErrNoChaptersFound
          else Inr (map (\<lambda>li. baseUrl @ str ''/'' @ hrefOf li) (gq_Find sel_body_ul_li [] doc)))
     \<and> (\<forall>urls. getChapters baseUrl doc = Inr urls \<longrightarrow>
           length urls = length (gq_Find sel_body_ul_li [] doc))
     \<and> (\<forall>li \<in> set (gq_Find sel_body_ul_li [] doc).
           Data (hd (gq_Find sel_a_href [] li)) = str ''a''
           \<and> (\<exists>at \<in> set (Attr (hd (gq_Find sel_a_href [] li))).
                 Key at = str ''href'' \<and> Val at = hrefOf li))"
proof -
  assume h: "\<forall>li \<in> set (gq_Find sel_body_ul_li [] doc). gq_Find sel_a_href [] li \<noteq> []"
  let ?lis = "gq_Find sel_body_ul_li [] doc"
  have e: "getChapters_Each baseUrl ?lis [] = Inr (map (\<lambda>li. baseUrl @ str ''/'' @ hrefOf li) ?lis)"
    using getChapters_Each_all_links [OF h, of baseUrl "[]"] by simp
  have g: "getChapters baseUrl doc
       = (if ?lis = [] then Inl ErrNoChaptersFound
          else Inr (map (\<lambda>li. baseUrl @ str ''/'' @ hrefOf li) ?lis))"
    by (simp add: getChapters_def e)
  have l: "\<forall>urls. getChapters baseUrl doc = Inr urls \<longrightarrow> length urls = length ?lis"
    unfolding g by auto
  have a: "\<forall>li \<in> set ?lis.
           Data (hd (gq_Find sel_a_href [] li)) = str ''a''
           \<and> (\<exists>at \<in> set (Attr (hd (gq_Find sel_a_href [] li))).
                 Key at = str ''href'' \<and> Val at = hrefOf li)"
    using h hrefOf_is_href by blast
  from g l a show ?thesis by blast
qed

text \<open>The property at an index with two list items and at a page with none.\<close>

theorem getChapters_lists_links_in_order_witness:
  "getChapters (str ''B'')
      (page [elem ''ul'' atom_Ul []
         [elem ''li'' atom_Li [] [elem ''a'' atom_A [(''href'', ''k1.html'')] []],
          elem ''li'' atom_Li [] [tnode (str ''Kapitel 2''), elem ''a'' atom_A [(''href'', ''k2.html'')] []]]])
     = Inr [str ''B/k1.html'', str ''B/k2.html'']
   \<and> getChapters (str ''B'') (page [elem ''p'' atom_P [] []]) = Inl ErrNoChaptersFound"
proof -
  let ?d = "page [elem ''ul'' atom_Ul []
         [elem ''li'' atom_Li [] [elem ''a'' atom_A [(''href'', ''k1.html'')] []],
          elem ''li'' atom_Li [] [tnode (str ''Kapitel 2''), elem ''a'' atom_A [(''href'', ''k2.html'')] []]]]"
  have h1: "\<forall>li \<in> set (gq_Find sel_body_ul_li [] ?d). gq_Find sel_a_href [] li \<noteq> []"
    by (simp add: sample_defs gq_Find_def sel_body_ul_li_def sel_a_href_def)
  have h2: "\<forall>li \<in> set (gq_Find sel_body_ul_li [] (page [elem ''p'' atom_P [] []])).
              gq_Find sel_a_href [] li \<noteq> []"
    by (simp add: sample_defs gq_Find_def sel_body_ul_li_def sel_a_href_def)
  show ?thesis
    using getChapters_lists_links_in_order [OF h1, of "str ''B''"]
      getChapters_lists_links_in_order [OF h2, of "str ''B''"]
    by (simp add: sample_defs gq_Find_def sel_body_ul_li_def sel_a_href_def hrefOf_def gq_Attr_def)
qed

text \<open>
  Claim C6 as it was stated fails for list items that are not under a \<^verbatim>\<open>ul\<close> element:
  the body below holds one list item, in an \<^verbatim>\<open>ol\<close> element, with a link in it, and
  \<^verbatim>\<open>getChapters\<close> fails with \<^verbatim>\<open>ErrNoChaptersFound\<close> instead of returning one URL.
\<close>

theorem list_items_of_an_ordered_list_are_skipped:
  "gq_Find (Descendant (Tag (str ''body'')) (Tag (str ''li''))) []
      (page [elem ''ol'' atom_Ol [] [elem ''li'' atom_Li [] [elem ''a'' atom_A [(''href'', ''k1.html'')] []]]])
     = [elem ''li'' atom_Li [] [elem ''a'' atom_A [(''href'', ''k1.html'')] []]]
   \<and> gq_Find sel_a_href [] (elem ''li'' atom_Li [] [elem ''a'' atom_A [(''href'', ''k1.html'')] []])
     = [elem ''a'' atom_A [(''href'', ''k1.html'')] []]
   \<and> getChapters (str ''https://projekt-gutenberg.org/a/b'')
        (page [elem ''ol'' atom_Ol [] [elem ''li'' atom_Li [] [elem ''a'' atom_A [(''href'', ''k1.html'')] []]]])
     = Inl ErrNoChaptersFound"
  by (simp add: sample_defs gq_Find_def getChapters_def sel_body_ul_li_def sel_a_href_def)

end
